theory Spec2Isabelle
  imports Main "HOL-Library.Word"
begin

section \<open>The hash table of coregrind/m_hashtable.c\<close>

text \<open>
  The table of \<^verbatim>\<open>m_hashtable.c\<close> is embedded with explicit state passing. A node
  pointer is an address, \<^verbatim>\<open>NULL\<close> is \<open>None\<close>, and the caller-owned node headers live
  in a heap indexed by address. The bucket array \<^verbatim>\<open>table->chain\<close> is a function from
  slot index to node pointer whose valid indices are those below \<^verbatim>\<open>max_size\<close>; a read
  or write at any other index is undefined behaviour in C and is the error
  \<open>OutOfBounds\<close> here. A failing \<^verbatim>\<open>vg_assert\<close> is \<open>AssertFail\<close>, dereferencing
  \<^verbatim>\<open>NULL\<close> is \<open>NullDeref\<close>, and \<^verbatim>\<open>%\<close> by zero is \<open>DivByZero\<close>.

  Integer widths are those of an LP64 platform: \<^verbatim>\<open>UWord\<close> and \<^verbatim>\<open>ULong\<close> keys are
  64-bit words, the \<^verbatim>\<open>UInt\<close> fields \<^verbatim>\<open>n_elements\<close> and \<^verbatim>\<open>iterChain\<close> are 32-bit
  words and wrap around. Slot indices and \<^verbatim>\<open>max_size\<close> (a \<^verbatim>\<open>SizeT\<close> that only ever
  holds an entry of \<^verbatim>\<open>primes\<close>, all below \<open>2 ^ 29\<close>) are natural numbers: every index
  is compared with \<^verbatim>\<open>max_size\<close> before it can leave the range of its C type. The one
  exception is the \<^verbatim>\<open>UInt\<close> counter \<open>i\<close> of \<^verbatim>\<open>HT_to_array\<close>, which the inner loop
  increments once per collected node; modelled without wrap-around, it differs from C
  only if more than \<open>2 ^ 32 - max_size\<close> nodes are collected in one call.
\<close>

subsection \<open>Data\<close>

type_synonym addr = nat

record VgHashNode =
  key :: "64 word"
  "next" :: "addr option"

type_synonym heap = "addr \<Rightarrow> VgHashNode"

record VgHashTable =
  max_size :: nat
  n_elements :: "32 word"
  iterNode :: "addr option"
  iterChain :: "32 word"
  iterOK :: bool
  chain :: "nat \<Rightarrow> addr option"
  name :: string

datatype error = AssertFail | OutOfBounds | NullDeref | DivByZero

definition N_HASH_PRIMES :: nat where
  "N_HASH_PRIMES = 20"

definition primes :: "nat list" where
  "primes =
     [769, 1543, 3079, 6151,
      12289, 24593, 49157, 98317,
      196613, 393241, 786433, 1572869,
      3145739, 6291469, 12582917, 25165843,
      50331653, 100663319, 201326611, 402653189]"

text \<open>\<^verbatim>\<open>CHAIN_NO(key,tbl)\<close> is \<^verbatim>\<open>((ULong)(key)) % tbl->max_size\<close>; its callers check
  the divisor where the model needs it.\<close>

definition CHAIN_NO :: "64 word \<Rightarrow> VgHashTable \<Rightarrow> nat" where
  "CHAIN_NO k tbl = unat k mod max_size tbl"

subsection \<open>Construction and count\<close>

text \<open>Both \<^verbatim>\<open>calloc\<close> calls zero the memory: every slot, \<^verbatim>\<open>iterNode\<close> and
  \<^verbatim>\<open>iterChain\<close> start as zero. \<^verbatim>\<open>vg_assert(name)\<close> cannot fail for a string value.\<close>

definition HT_construct :: "string \<Rightarrow> VgHashTable" where
  "HT_construct nm =
     \<lparr> max_size = primes ! 0,
       n_elements = 0,
       iterNode = None,
       iterChain = 0,
       iterOK = True,
       chain = (\<lambda>_. None),
       name = nm \<rparr>"

definition HT_count_nodes :: "VgHashTable \<Rightarrow> 32 word" where
  "HT_count_nodes table = n_elements table"

subsection \<open>Growth\<close>

text \<open>The loop over \<^verbatim>\<open>primes\<close> in \<^verbatim>\<open>resize\<close>: the first entry greater than
  \<^verbatim>\<open>new_chains\<close> replaces it, and the loop breaks.\<close>

fun pick_prime :: "nat list \<Rightarrow> nat \<Rightarrow> nat" where
  "pick_prime [] new_chains = new_chains"
| "pick_prime (p # ps) new_chains =
     (if p > new_chains then p else pick_prime ps new_chains)"

text \<open>\<^verbatim>\<open>while (chains[idx] == NULL) {idx++;}\<close> on the new array of \<open>new_chains\<close>
  slots: the loop advances while the slot is empty and stops at the first occupied
  slot; reading \<^verbatim>\<open>chains[idx]\<close> at \<open>idx \<ge> new_chains\<close> is out of bounds.\<close>

function resize_probe :: "(nat \<Rightarrow> addr option) \<Rightarrow> nat \<Rightarrow> nat \<Rightarrow> error + nat" where
  "resize_probe chns new_chains idx =
     (if idx \<ge> new_chains then Inl OutOfBounds
      else if chns idx = None then resize_probe chns new_chains (idx + 1)
      else Inr idx)"
  by pat_completeness auto
termination
  by (relation "measure (\<lambda>(chns, new_chains, idx). new_chains - idx)") auto

declare resize_probe.simps [simp del]

text \<open>The rehash loop \<^verbatim>\<open>for (i = 0; i < old_chains; i++)\<close>; the table's
  \<^verbatim>\<open>max_size\<close> is already \<open>new_chains\<close> when \<^verbatim>\<open>CHAIN_NO\<close> is evaluated.\<close>

function resize_loop ::
  "(nat \<Rightarrow> addr option) \<Rightarrow> heap \<Rightarrow> nat \<Rightarrow> nat \<Rightarrow> (nat \<Rightarrow> addr option) \<Rightarrow> nat
     \<Rightarrow> error + (nat \<Rightarrow> addr option)" where
  "resize_loop old h old_chains new_chains chns i =
     (if i < old_chains then
        (case old i of
           None \<Rightarrow> resize_loop old h old_chains new_chains chns (i + 1)
         | Some node \<Rightarrow>
             (case resize_probe chns new_chains (unat (key (h node)) mod new_chains) of
                Inl e \<Rightarrow> Inl e
              | Inr idx \<Rightarrow>
                  resize_loop old h old_chains new_chains (chns(idx := Some node)) (i + 1)))
      else Inr chns)"
  by pat_completeness auto
termination
  by (relation "measure (\<lambda>(old, h, old_chains, new_chains, chns, i). old_chains - i)") auto

declare resize_loop.simps [simp del]

definition resize :: "VgHashTable \<Rightarrow> heap \<Rightarrow> error + VgHashTable" where
  "resize table h =
     (let old_chains = max_size table;
          new_chains = old_chains + 1
      in if old_chains = primes ! (N_HASH_PRIMES - 1) then Inr table
         else if \<not> (old_chains \<ge> primes ! 0 \<and> old_chains < primes ! (N_HASH_PRIMES - 1))
           then Inl AssertFail
         else
           let new_chains = pick_prime primes new_chains
           in if \<not> new_chains > old_chains then Inl AssertFail
              else if \<not> (new_chains > primes ! 0 \<and> new_chains \<le> primes ! (N_HASH_PRIMES - 1))
                then Inl AssertFail
              else
                (case resize_loop (chain table) h old_chains new_chains (\<lambda>_. None) 0 of
                   Inl e \<Rightarrow> Inl e
                 | Inr chns \<Rightarrow> Inr (table\<lparr>max_size := new_chains, chain := chns\<rparr>)))"

lemma resize_max_size:
  assumes "resize table h = Inr table'"
  shows "table' = table \<and> max_size table = 402653189
         \<or> max_size table < max_size table' \<and> max_size table' \<le> 402653189"
  using assms
  by (auto simp: resize_def Let_def primes_def N_HASH_PRIMES_def
           split: if_splits sum.splits)

subsection \<open>Insertion\<close>

text \<open>The probe loop of \<^verbatim>\<open>HT_add_node\<close>:
  \<^verbatim>\<open>while (table->chain[idx]) { idx++; if (idx > table->max_size-1) resize(table); }\<close>.
  The loop condition reads \<^verbatim>\<open>chain[idx]\<close>, which is out of bounds once \<open>idx\<close> has
  reached \<^verbatim>\<open>max_size\<close>. It returns the table (possibly grown) and the free slot.\<close>

function add_node_loop :: "VgHashTable \<Rightarrow> heap \<Rightarrow> nat \<Rightarrow> error + (VgHashTable \<times> nat)" where
  "add_node_loop table h idx =
     (if idx \<ge> max_size table then Inl OutOfBounds
      else
        (case chain table idx of
           None \<Rightarrow> Inr (table, idx)
         | Some _ \<Rightarrow>
             (if idx + 1 > max_size table - 1 then
                (case resize table h of
                   Inl e \<Rightarrow> Inl e
                 | Inr table' \<Rightarrow> add_node_loop table' h (idx + 1))
              else add_node_loop table h (idx + 1))))"
  by pat_completeness auto
termination
proof (relation "measures [\<lambda>(table, h, idx). 402653189 - max_size table,
                           \<lambda>(table, h, idx). max_size table + 1 - idx]", goal_cases)
  case 1
  then show ?case by simp
next
  case (2 table h idx x2 table')
  then show ?case using resize_max_size [of table h table'] by auto
next
  case (3 table h idx x2)
  then show ?case by auto
qed

declare add_node_loop.simps [simp del]

definition HT_add_node :: "VgHashTable \<Rightarrow> heap \<Rightarrow> addr \<Rightarrow> error + (VgHashTable \<times> heap)" where
  "HT_add_node table h node =
     (if max_size table = 0 then Inl DivByZero
      else
        (case add_node_loop table h (CHAIN_NO (key (h node)) table) of
           Inl e \<Rightarrow> Inl e
         | Inr (table', idx) \<Rightarrow>
             Inr (table'\<lparr>chain := (chain table')(idx := Some node),
                         n_elements := n_elements table' + 1,
                         iterOK := False\<rparr>,
                  h(node := (h node)\<lparr>next := None\<rparr>))))"

subsection \<open>Lookup\<close>

text \<open>\<^verbatim>\<open>while (curr) { if (key == curr->key) return curr; idx++;
  if (idx >= table->max_size) break; curr = table->chain[idx]; }\<close>\<close>

function lookup_loop :: "VgHashTable \<Rightarrow> heap \<Rightarrow> 64 word \<Rightarrow> nat \<Rightarrow> addr option \<Rightarrow> addr option" where
  "lookup_loop table h k idx cur =
     (case cur of
        None \<Rightarrow> None
      | Some c \<Rightarrow>
          (if k = key (h c) then Some c
           else if idx + 1 \<ge> max_size table then None
           else lookup_loop table h k (idx + 1) (chain table (idx + 1))))"
  by pat_completeness auto
termination
  by (relation "measure (\<lambda>(table, h, k, idx, cur). max_size table - idx)") auto

declare lookup_loop.simps [simp del]

definition HT_lookup :: "VgHashTable \<Rightarrow> heap \<Rightarrow> 64 word \<Rightarrow> error + addr option" where
  "HT_lookup table h k =
     (if max_size table = 0 then Inl DivByZero
      else Inr (lookup_loop table h k (CHAIN_NO k table) (chain table (CHAIN_NO k table))))"

text \<open>\<^verbatim>\<open>HT_gen_lookup\<close> differs in the match test, which also calls the comparator,
  and in its guard on an empty bucket array. The comparator is a function of the two
  node pointers.\<close>

function gen_lookup_loop ::
  "VgHashTable \<Rightarrow> heap \<Rightarrow> addr \<Rightarrow> (addr \<Rightarrow> addr \<Rightarrow> int) \<Rightarrow> nat \<Rightarrow> addr option \<Rightarrow> addr option" where
  "gen_lookup_loop table h hnode cmp idx cur =
     (case cur of
        None \<Rightarrow> None
      | Some c \<Rightarrow>
          (if key (h hnode) = key (h c) \<and> cmp hnode c = 0 then Some c
           else if idx + 1 \<ge> max_size table then None
           else gen_lookup_loop table h hnode cmp (idx + 1) (chain table (idx + 1))))"
  by pat_completeness auto
termination
  by (relation "measure (\<lambda>(table, h, hnode, cmp, idx, cur). max_size table - idx)") auto

declare gen_lookup_loop.simps [simp del]

definition HT_gen_lookup ::
  "VgHashTable \<Rightarrow> heap \<Rightarrow> addr \<Rightarrow> (addr \<Rightarrow> addr \<Rightarrow> int) \<Rightarrow> addr option" where
  "HT_gen_lookup table h hnode cmp =
     (if max_size table = 0 then None
      else gen_lookup_loop table h hnode cmp (CHAIN_NO (key (h hnode)) table)
             (chain table (CHAIN_NO (key (h hnode)) table)))"

subsection \<open>Removal\<close>

text \<open>The inner loop shared by both removals,
  \<^verbatim>\<open>for (UWord i = 0; i+j < table->max_size; i++) { if (table->chain[i] != NULL)
  { curr = table->chain[i]; break; } else { curr = NULL; } }\<close>:
  it restarts at slot 0 and yields the first occupied slot below \<open>max_size - j\<close>.\<close>

function remove_scan :: "VgHashTable \<Rightarrow> nat \<Rightarrow> nat \<Rightarrow> addr option \<Rightarrow> addr option" where
  "remove_scan table j i cur =
     (if i + j < max_size table then
        (case chain table i of
           Some c \<Rightarrow> Some c
         | None \<Rightarrow> remove_scan table j (i + 1) None)
      else cur)"
  by pat_completeness auto
termination
  by (relation "measure (\<lambda>(table, j, i, cur). max_size table - (i + j))") auto

declare remove_scan.simps [simp del]

text \<open>\<^verbatim>\<open>for (UWord j = 0; j < table->n_elements; j++)\<close> of \<^verbatim>\<open>HT_remove\<close>. The test
  \<^verbatim>\<open>key == curr->key\<close> dereferences \<open>curr\<close> without a null check. A match decrements
  the count and returns the node; no slot is written.\<close>

function remove_loop ::
  "VgHashTable \<Rightarrow> heap \<Rightarrow> 64 word \<Rightarrow> nat \<Rightarrow> addr option \<Rightarrow> error + (VgHashTable \<times> addr option)" where
  "remove_loop table h k j cur =
     (if j < unat (n_elements table) then
        (case cur of
           None \<Rightarrow> Inl NullDeref
         | Some c \<Rightarrow>
             (if k = key (h c) then Inr (table\<lparr>n_elements := n_elements table - 1\<rparr>, Some c)
              else remove_loop table h k (j + 1) (remove_scan table j 0 cur)))
      else Inr (table, None))"
  by pat_completeness auto
termination
  by (relation "measure (\<lambda>(table, h, k, j, cur). unat (n_elements table) - j)") auto

declare remove_loop.simps [simp del]

definition HT_remove ::
  "VgHashTable \<Rightarrow> heap \<Rightarrow> 64 word \<Rightarrow> error + (VgHashTable \<times> addr option)" where
  "HT_remove table h k =
     (if max_size table = 0 then Inl DivByZero
      else remove_loop (table\<lparr>iterOK := False\<rparr>) h k 0 (chain table (CHAIN_NO k table)))"

text \<open>\<^verbatim>\<open>while (curr)\<close> of \<^verbatim>\<open>HT_gen_remove\<close> has no counter: when the node it holds
  does not match and the inner loop yields the same node again, it runs forever. The
  loop is therefore a partial function, \<open>None\<close> standing for no return.\<close>

partial_function (option) gen_remove_loop ::
  "VgHashTable \<Rightarrow> heap \<Rightarrow> addr \<Rightarrow> (addr \<Rightarrow> addr \<Rightarrow> int) \<Rightarrow> nat \<Rightarrow> addr option
     \<Rightarrow> (VgHashTable \<times> addr option) option" where
  "gen_remove_loop table h hnode cmp idx cur =
     (case cur of
        None \<Rightarrow> Some (table, None)
      | Some c \<Rightarrow>
          (if key (h hnode) = key (h c) \<and> cmp hnode c = 0
           then Some (table\<lparr>n_elements := n_elements table - 1\<rparr>, Some c)
           else gen_remove_loop table h hnode cmp idx (remove_scan table idx 0 cur)))"

definition HT_gen_remove ::
  "VgHashTable \<Rightarrow> heap \<Rightarrow> addr \<Rightarrow> (addr \<Rightarrow> addr \<Rightarrow> int)
     \<Rightarrow> (error + (VgHashTable \<times> addr option)) option" where
  "HT_gen_remove table h hnode cmp =
     (if max_size table = 0 then Some (Inl DivByZero)
      else
        (case gen_remove_loop (table\<lparr>iterOK := False\<rparr>) h hnode cmp
                (CHAIN_NO (key (h hnode)) table)
                (chain table (CHAIN_NO (key (h hnode)) table)) of
           None \<Rightarrow> None
         | Some r \<Rightarrow> Some (Inr r)))"

subsection \<open>Export to an array\<close>

text \<open>The two nested loops of \<^verbatim>\<open>HT_to_array\<close>,
  \<^verbatim>\<open>for (UInt i = 0; i<table->max_size; i++) { node = table->chain[i];
  while (node){ arr[j++] = node; node = node->next; i++; } }\<close>.
  The array has \<open>n_elems\<close> entries and is filled from index 0, so it is the list of
  the entries written so far and \<open>j\<close> is its length; a write at \<open>j \<ge> n_elems\<close> is
  out of bounds. The inner loop increments \<open>i\<close> as well.\<close>

function to_array_for ::
    "VgHashTable \<Rightarrow> heap \<Rightarrow> nat \<Rightarrow> nat \<Rightarrow> addr list \<Rightarrow> error + addr list"
  and to_array_while ::
    "VgHashTable \<Rightarrow> heap \<Rightarrow> nat \<Rightarrow> nat \<Rightarrow> addr option \<Rightarrow> addr list \<Rightarrow> error + addr list" where
  "to_array_for table h n_elems i arr =
     (if i < max_size table then to_array_while table h n_elems i (chain table i) arr
      else Inr arr)"
| "to_array_while table h n_elems i node arr =
     (case node of
        None \<Rightarrow> to_array_for table h n_elems (i + 1) arr
      | Some a \<Rightarrow>
          (if length arr \<ge> n_elems then Inl OutOfBounds
           else to_array_while table h n_elems (i + 1) (next (h a)) (arr @ [a])))"
  by pat_completeness auto
termination
  by (relation "measures
        [\<lambda>x. case x of Inl (table, h, n, i, arr) \<Rightarrow> n - length arr
                      | Inr (table, h, n, i, node, arr) \<Rightarrow> n - length arr,
         \<lambda>x. case x of Inl (table, h, n, i, arr) \<Rightarrow>
                          (if i < max_size table then 2 * (max_size table - i) + 2 else 0)
                      | Inr (table, h, n, i, node, arr) \<Rightarrow> 2 * (max_size table - i) + 1]")
     auto

declare to_array_for.simps [simp del] to_array_while.simps [simp del]

text \<open>The result is the array (\<open>[]\<close> for the \<^verbatim>\<open>NULL\<close> returned on an empty table);
  \<^verbatim>\<open>*n_elems\<close> is \<^verbatim>\<open>table->n_elements\<close> and, by the final assertion, the
  array's length.\<close>

definition HT_to_array :: "VgHashTable \<Rightarrow> heap \<Rightarrow> error + addr list" where
  "HT_to_array table h =
     (let n_elems = n_elements table
      in if n_elems = 0 then Inr []
         else
           (case to_array_for table h (unat n_elems) 0 [] of
              Inl e \<Rightarrow> Inl e
            | Inr arr \<Rightarrow> if length arr = unat n_elems then Inr arr else Inl AssertFail))"

subsection \<open>The iterator\<close>

definition HT_ResetIter :: "VgHashTable \<Rightarrow> VgHashTable" where
  "HT_ResetIter table = table\<lparr>iterNode := None, iterChain := 0, iterOK := True\<rparr>"

text \<open>\<^verbatim>\<open>for (i = table->iterChain; i < table->max_size; i++)\<close> of \<^verbatim>\<open>HT_Next\<close>.\<close>

function Next_loop :: "VgHashTable \<Rightarrow> nat \<Rightarrow> VgHashTable \<times> addr option" where
  "Next_loop table i =
     (if i < max_size table then
        (case chain table i of
           Some a \<Rightarrow> (table\<lparr>iterNode := Some a, iterChain := of_nat (i + 1)\<rparr>, Some a)
         | None \<Rightarrow> Next_loop table (i + 1))
      else (table, None))"
  by pat_completeness auto
termination
  by (relation "measure (\<lambda>(table, i). max_size table - i)") auto

declare Next_loop.simps [simp del]

text \<open>The loop counter is an \<^verbatim>\<open>Int\<close> initialised from the \<^verbatim>\<open>UInt\<close>
  \<^verbatim>\<open>iterChain\<close>; compared with the \<^verbatim>\<open>SizeT\<close> \<^verbatim>\<open>max_size\<close> it is converted to
  unsigned, so a negative start is a huge value and the loop body never runs.\<close>

definition HT_Next :: "VgHashTable \<Rightarrow> heap \<Rightarrow> error + (VgHashTable \<times> addr option)" where
  "HT_Next table h =
     (if \<not> iterOK table then Inl AssertFail
      else
        (case (case iterNode table of None \<Rightarrow> None | Some a \<Rightarrow> next (h a)) of
           Some b \<Rightarrow>
             Inr (table\<lparr>iterNode := Some b, iterChain := iterChain table + 1\<rparr>, Some b)
         | None \<Rightarrow>
             (if sint (iterChain table) < 0 then Inr (table, None)
              else Inr (Next_loop table (unat (iterChain table))))))"

text \<open>\<^verbatim>\<open>HT_remove_at_Iter\<close> computes \<^verbatim>\<open>curChain\<close> and does not use it; it clears
  \<^verbatim>\<open>iterNode\<close> and decrements the count. No slot is written.\<close>

definition HT_remove_at_Iter :: "VgHashTable \<Rightarrow> error + VgHashTable" where
  "HT_remove_at_Iter table =
     (if \<not> iterOK table then Inl AssertFail
      else if iterNode table = None then Inl AssertFail
      else Inr (table\<lparr>iterNode := None, n_elements := n_elements table - 1\<rparr>))"

subsection \<open>Callers\<close>

text \<open>A caller that inserts a list of nodes in order, stopping at the first fault; a heap
  of fresh nodes given by their keys, all links \<^verbatim>\<open>NULL\<close>; and the sequencing of calls
  that can fail.\<close>

fun add_nodes :: "VgHashTable \<Rightarrow> heap \<Rightarrow> addr list \<Rightarrow> error + (VgHashTable \<times> heap)" where
  "add_nodes table h [] = Inr (table, h)"
| "add_nodes table h (node # nodes) =
     (case HT_add_node table h node of
        Inl e \<Rightarrow> Inl e
      | Inr (table', h') \<Rightarrow> add_nodes table' h' nodes)"

definition nodes_with_keys :: "(addr \<Rightarrow> 64 word) \<Rightarrow> heap" where
  "nodes_with_keys f = (\<lambda>a. \<lparr>key = f a, next = None\<rparr>)"

definition and_then :: "error + 'a \<Rightarrow> ('a \<Rightarrow> error + 'b) \<Rightarrow> error + 'b" where
  "and_then r f = (case r of Inl e \<Rightarrow> Inl e | Inr x \<Rightarrow> f x)"


subsection \<open>Reachable states\<close>

text \<open>The states a caller can bring about: the table \<^verbatim>\<open>HT_construct\<close> returns, with any
  heap of caller-owned nodes, and then any of the mutating operations that returns. The
  table's operations are the only writers of the node headers considered here.\<close>

inductive reachable :: "VgHashTable \<Rightarrow> heap \<Rightarrow> bool" where
  construct: "reachable (HT_construct nm) h"
| add_node: "reachable table h \<Longrightarrow> HT_add_node table h node = Inr (table', h')
              \<Longrightarrow> reachable table' h'"
| remove: "reachable table h \<Longrightarrow> HT_remove table h k = Inr (table', r)
              \<Longrightarrow> reachable table' h"
| gen_remove: "reachable table h \<Longrightarrow> HT_gen_remove table h hnode cmp = Some (Inr (table', r))
              \<Longrightarrow> reachable table' h"
| reset: "reachable table h \<Longrightarrow> reachable (HT_ResetIter table) h"
| advance: "reachable table h \<Longrightarrow> HT_Next table h = Inr (table', r) \<Longrightarrow> reachable table' h"
| remove_at_iter: "reachable table h \<Longrightarrow> HT_remove_at_Iter table = Inr table'
              \<Longrightarrow> reachable table' h"

text \<open>The nodes found from a slot head by following \<^verbatim>\<open>next\<close>, at most \<open>n\<close> of them.\<close>

fun chain_nodes :: "heap \<Rightarrow> nat \<Rightarrow> addr option \<Rightarrow> addr list" where
  "chain_nodes h 0 node = []"
| "chain_nodes h (Suc n) None = []"
| "chain_nodes h (Suc n) (Some a) = a # chain_nodes h n (next (h a))"

subsection \<open>Concrete tables and heaps\<close>



definition heap_stale_link :: heap where
  "heap_stale_link = (nodes_with_keys (\<lambda>_. 5))(100 := \<lparr>key = 5, next = Some 200\<rparr>)"

definition cursor_table :: VgHashTable where
  "cursor_table =
     (HT_construct ''T'')
       \<lparr>chain := (\<lambda>_. None)(5 := Some 100), n_elements := 1, iterOK := True,
        iterNode := Some 100, iterChain := 6\<rparr>"


definition rehash_old :: "nat \<Rightarrow> addr option" where
  "rehash_old = (\<lambda>_. None)(0 := Some 100)"

definition rehash_new :: "nat \<Rightarrow> addr option" where
  "rehash_new = (\<lambda>_. None)(7 := Some 200)"

section \<open>Properties\<close>

subsection \<open>Facts about growth\<close>

lemma primes_first: "primes ! 0 = 769"
  by (simp add: primes_def)

lemma primes_last:
  "primes ! (N_HASH_PRIMES - 1) = 402653189" "primes ! (N_HASH_PRIMES - Suc 0) = 402653189"
  by (simp_all add: primes_def N_HASH_PRIMES_def)

lemma resize_probe_all_empty:
  "(\<forall>k<nc. chns k = None) \<Longrightarrow> resize_probe chns nc idx = Inl OutOfBounds"
proof (induction chns nc idx rule: resize_probe.induct)
  case (1 chns nc idx)
  then show ?case by (subst resize_probe.simps) auto
qed

lemma resize_loop_fresh:
  "resize_loop old h oc nc (\<lambda>_. None) i =
     (if \<exists>k\<ge>i. k < oc \<and> old k \<noteq> None then Inl OutOfBounds else Inr (\<lambda>_. None))"
proof (induction "oc - i" arbitrary: i)
  case 0
  then show ?case by (subst resize_loop.simps) auto
next
  case (Suc n)
  then have lt: "i < oc" and n: "n = oc - (i + 1)" by auto
  show ?case
  proof (cases "old i")
    case None
    have "(\<exists>k\<ge>i. k < oc \<and> old k \<noteq> None) = (\<exists>k\<ge>i + 1. k < oc \<and> old k \<noteq> None)"
      using None by (metis Suc_eq_plus1 Suc_leI le_neq_implies_less add_leD1)
    then show ?thesis
      using Suc(1) [OF n] None lt by (subst resize_loop.simps) simp
  next
    case (Some a)
    then have "\<exists>k\<ge>i. k < oc \<and> old k \<noteq> None" using lt by auto
    then show ?thesis
      using Some lt by (subst resize_loop.simps) (simp add: resize_probe_all_empty)
  qed
qed

lemma pick_prime_mem: "n \<le> 402653189 \<Longrightarrow> pick_prime primes n \<in> set primes"
  by (simp add: primes_def)

lemma resize_final: "max_size table = 402653189 \<Longrightarrow> resize table h = Inr table"
  by (simp add: resize_def Let_def primes_last)

lemma resize_Inr:
  assumes "resize table h = Inr table'"
  shows "table' = table \<and> max_size table = 402653189
       \<or> table' = table\<lparr>max_size := pick_prime primes (max_size table + 1), chain := (\<lambda>_. None)\<rparr>
         \<and> max_size table < max_size table' \<and> max_size table' \<in> set primes
         \<and> (\<forall>k<max_size table. chain table k = None)"
proof (cases "max_size table = 402653189")
  case True
  then show ?thesis using assms by (simp add: resize_final)
next
  case False
  let ?n = "pick_prime primes (max_size table + 1)"
  from assms False have rng: "769 \<le> max_size table" "max_size table < 402653189"
    and gt: "max_size table < ?n"
    and loop: "resize_loop (chain table) h (max_size table) ?n (\<lambda>_. None) 0 \<noteq> Inl OutOfBounds"
    and res: "\<And>c. resize_loop (chain table) h (max_size table) ?n (\<lambda>_. None) 0 = Inr c
               \<Longrightarrow> table' = table\<lparr>max_size := ?n, chain := c\<rparr>"
    by (auto simp: resize_def Let_def primes_first primes_last split: if_splits sum.splits)
  from loop have empty: "\<forall>k<max_size table. chain table k = None"
    by (auto simp: resize_loop_fresh split: if_splits)
  then have "resize_loop (chain table) h (max_size table) ?n (\<lambda>_. None) 0 = Inr (\<lambda>_. None)"
    by (auto simp: resize_loop_fresh)
  from res [OF this] have "table' = table\<lparr>max_size := ?n, chain := (\<lambda>_. None)\<rparr>" .
  moreover have "?n \<in> set primes" using rng by (intro pick_prime_mem) simp
  ultimately show ?thesis using gt empty by simp
qed

lemma resize_nonempty:
  assumes "769 \<le> max_size table" "max_size table < 402653189"
    and "k < max_size table" "chain table k \<noteq> None"
  shows "resize table h = Inl OutOfBounds"
proof -
  let ?n = "pick_prime primes (max_size table + 1)"
  have "?n \<in> set primes" using assms(2) by (intro pick_prime_mem) simp
  then have c: "769 \<le> ?n" "?n \<le> 402653189" by (auto simp: primes_def)
  have d: "max_size table < ?n" 
    using assms(1,2) by (simp add: primes_def)
  have "\<exists>j\<ge>0. j < max_size table \<and> chain table j \<noteq> None" using assms by auto
  then show ?thesis
    using assms(1,2) c d by (simp add: resize_def Let_def primes_first primes_last resize_loop_fresh)
qed

subsection \<open>Facts about the probe loop of insertion\<close>

lemma add_node_loop_free:
  "idx < max_size table \<Longrightarrow> chain table idx = None \<Longrightarrow> add_node_loop table h idx = Inr (table, idx)"
  by (subst add_node_loop.simps) simp

lemma add_node_loop_occupied:
  "idx + 1 < max_size table \<Longrightarrow> chain table idx = Some a \<Longrightarrow>
     add_node_loop table h idx = add_node_loop table h (idx + 1)"
proof -
  assume a: "idx + 1 < max_size table" "chain table idx = Some a"
  then have "\<not> idx + 1 > max_size table - 1" "\<not> idx \<ge> max_size table" by arith+
  with a(2) show ?thesis by (subst add_node_loop.simps) simp
qed

lemma add_node_loop_Inr:
  "add_node_loop table h idx = Inr (table', i) \<Longrightarrow>
     table' = table \<and> idx \<le> i \<and> i < max_size table \<and> chain table i = None
     \<and> (\<forall>k. idx \<le> k \<and> k < i \<longrightarrow> chain table k \<noteq> None)"
proof (induction table h idx rule: add_node_loop.induct)
  case (1 table h idx)
  show ?case
  proof (cases "chain table idx")
    case None
    with "1.prems" show ?thesis
      by (subst (asm) add_node_loop.simps) (auto split: if_splits)
  next
    case (Some a)
    from "1.prems" have lt: "idx < max_size table"
      by (subst (asm) add_node_loop.simps) (auto split: if_splits)
    show ?thesis
    proof (cases "idx + 1 > max_size table - 1")
      case True
      then have top: "idx + 1 = max_size table" using lt by simp
      from "1.prems" Some lt True obtain t2 where
        r: "resize table h = Inr t2" and l: "add_node_loop t2 h (idx + 1) = Inr (table', i)"
        by (subst (asm) add_node_loop.simps) (auto split: sum.splits)
      from resize_Inr [OF r] Some lt have "t2 = table" by auto
      with l top have "add_node_loop table h (max_size table) = Inr (table', i)" by simp
      then show ?thesis by (subst (asm) add_node_loop.simps) simp
    next
      case False
      with "1.prems" Some lt have l: "add_node_loop table h (idx + 1) = Inr (table', i)"
        by (subst (asm) add_node_loop.simps) simp
      have "table' = table \<and> idx + 1 \<le> i \<and> i < max_size table \<and> chain table i = None
            \<and> (\<forall>k. idx + 1 \<le> k \<and> k < i \<longrightarrow> chain table k \<noteq> None)"
        using "1.IH"(2) [OF _ Some False l] lt by simp
      then show ?thesis using Some
        by (auto simp: le_Suc_eq) (metis Suc_leI le_neq_implies_less option.distinct(1))
    qed
  qed
qed

lemma HT_add_node_Inr:
  assumes "HT_add_node table h node = Inr (table', h')"
  shows "\<exists>i. CHAIN_NO (key (h node)) table \<le> i \<and> i < max_size table \<and> chain table i = None
           \<and> (\<forall>k. CHAIN_NO (key (h node)) table \<le> k \<and> k < i \<longrightarrow> chain table k \<noteq> None)
           \<and> table' = table\<lparr>chain := (chain table)(i := Some node),
                              n_elements := n_elements table + 1, iterOK := False\<rparr>
           \<and> h' = h(node := (h node)\<lparr>next := None\<rparr>)"
proof -
  from assms obtain t2 i where
    l: "add_node_loop table h (CHAIN_NO (key (h node)) table) = Inr (t2, i)"
    and t: "table' = t2\<lparr>chain := (chain t2)(i := Some node),
                         n_elements := n_elements t2 + 1, iterOK := False\<rparr>"
    and h: "h' = h(node := (h node)\<lparr>next := None\<rparr>)"
    by (auto simp: HT_add_node_def split: if_splits sum.splits)
  from add_node_loop_Inr [OF l] t h show ?thesis by auto
qed


subsection \<open>Evaluation on concrete tables\<close>

lemma and_then_simps [simp]: "and_then (Inl e) f = Inl e" "and_then (Inr x) f = f x"
  by (simp_all add: and_then_def)

lemma nodes_with_keys_simps [simp]:
  "key (nodes_with_keys f a) = f a" "next (nodes_with_keys f a) = None"
  "(nodes_with_keys f)(a := (nodes_with_keys f a)\<lparr>next := None\<rparr>) = nodes_with_keys f"
  by (simp_all add: nodes_with_keys_def fun_eq_iff)

lemma max_size_construct [simp]: "max_size (HT_construct nm) = 769"
  and chain_construct [simp]: "chain (HT_construct nm) = (\<lambda>_. None)"
  and n_elements_construct [simp]: "n_elements (HT_construct nm) = 0"
  by (simp_all add: HT_construct_def primes_first)

lemmas insert_eval = HT_add_node_def add_node_loop.simps CHAIN_NO_def

lemma Next_loop_none:
  "(\<forall>k. i \<le> k \<and> k < max_size table \<longrightarrow> chain table k = None) \<Longrightarrow> Next_loop table i = (table, None)"
proof (induction table i rule: Next_loop.induct)
  case (1 table i)
  then show ?case by (subst Next_loop.simps) auto
qed

lemma to_array_for_none:
  "(\<forall>k. i \<le> k \<and> k < max_size table \<longrightarrow> chain table k = None) \<Longrightarrow>
     to_array_for table h n i arr = Inr arr"
proof (induction "max_size table - i" arbitrary: i)
  case 0
  then show ?case by (subst to_array_for.simps) simp
next
  case (Suc m)
  then have "to_array_for table h n (i + 1) arr = Inr arr" by (intro Suc.hyps(1)) auto
  with Suc.prems show ?case
    by (subst to_array_for.simps) (simp add: to_array_while.simps)
qed

lemma to_array_for_skip:
  "(\<forall>k. i \<le> k \<and> k < j \<longrightarrow> chain table k = None) \<Longrightarrow> i \<le> j \<Longrightarrow> j \<le> max_size table \<Longrightarrow>
     to_array_for table h n i arr = to_array_for table h n j arr"
proof (induction "j - i" arbitrary: i)
  case 0
  then show ?case by simp
next
  case (Suc m)
  then have "to_array_for table h n (i + 1) arr = to_array_for table h n j arr"
    by (intro Suc.hyps(1)) auto
  moreover have "i < max_size table" "chain table i = None"
    using Suc.prems Suc.hyps(2) by auto
  ultimately show ?case
    by (subst to_array_for.simps) (simp add: to_array_while.simps)
qed



subsection \<open>What the operations return\<close>

lemma remove_loop_Inr:
  "remove_loop table h k j cur = Inr (table', r) \<Longrightarrow>
     table' = table \<and> r = None \<or> table' = table\<lparr>n_elements := n_elements table - 1\<rparr> \<and> r \<noteq> None"
proof (induction table h k j cur rule: remove_loop.induct)
  case (1 table h k j cur)
  from "1.prems" show ?case
    by (subst (asm) remove_loop.simps) (auto split: if_splits option.splits dest: "1.IH")
qed

lemma HT_remove_Inr:
  assumes "HT_remove table h k = Inr (table', r)"
  shows "table' = table\<lparr>iterOK := False\<rparr> \<and> r = None
     \<or> table' = table\<lparr>iterOK := False, n_elements := n_elements table - 1\<rparr> \<and> r \<noteq> None"
proof -
  from assms have "remove_loop (table\<lparr>iterOK := False\<rparr>) h k 0
                     (chain table (CHAIN_NO k table)) = Inr (table', r)"
    by (simp add: HT_remove_def split: if_splits)
  from remove_loop_Inr [OF this] show ?thesis by simp
qed

lemma gen_remove_loop_Some:
  assumes "gen_remove_loop table h hnode cmp idx cur = Some y"
  shows "y = (table, None) \<or> (\<exists>c. y = (table\<lparr>n_elements := n_elements table - 1\<rparr>, Some c))"
  by (rule gen_remove_loop.raw_induct
        [where P = "\<lambda>table h hnode cmp idx cur y.
                      y = (table, None)
                      \<or> (\<exists>c. y = (table\<lparr>n_elements := n_elements table - 1\<rparr>, Some c))",
         OF _ assms])
     (auto split: option.splits if_splits)

lemma HT_gen_remove_Some:
  assumes "HT_gen_remove table h hnode cmp = Some (Inr (table', r))"
  shows "table' = table\<lparr>iterOK := False\<rparr> \<and> r = None
     \<or> table' = table\<lparr>iterOK := False, n_elements := n_elements table - 1\<rparr> \<and> r \<noteq> None"
proof -
  from assms have "gen_remove_loop (table\<lparr>iterOK := False\<rparr>) h hnode cmp
                     (CHAIN_NO (key (h hnode)) table)
                     (chain table (CHAIN_NO (key (h hnode)) table)) = Some (table', r)"
    by (simp add: HT_gen_remove_def split: if_splits option.splits)
  from gen_remove_loop_Some [OF this] show ?thesis by auto
qed

lemma Next_loop_result:
  "Next_loop table i = (table', r) \<Longrightarrow>
     table' = table \<and> r = None
     \<or> (\<exists>j a. i \<le> j \<and> j < max_size table \<and> chain table j = Some a \<and> r = Some a
           \<and> (\<forall>k. i \<le> k \<and> k < j \<longrightarrow> chain table k = None)
           \<and> table' = table\<lparr>iterNode := Some a, iterChain := of_nat (j + 1)\<rparr>)"
proof (induction table i rule: Next_loop.induct)
  case (1 table i)
  show ?case
  proof (cases "i < max_size table")
    case False
    with "1.prems" show ?thesis by (subst (asm) Next_loop.simps) simp
  next
    case lt: True
    show ?thesis
    proof (cases "chain table i")
      case (Some a)
      with "1.prems" lt have "r = Some a
        \<and> table' = table\<lparr>iterNode := Some a, iterChain := of_nat (i + 1)\<rparr>"
        by (subst (asm) Next_loop.simps) auto
      with Some lt show ?thesis
        by - (rule disjI2, rule exI [of _ i], rule exI [of _ a], auto)
    next
      case None
      with "1.prems" lt have "Next_loop table (i + 1) = (table', r)"
        by (subst (asm) Next_loop.simps) simp
      from "1.IH" [OF lt None this] show ?thesis
      proof (elim disjE exE conjE)
        assume "table' = table" "r = None"
        then show ?thesis by simp
      next
        fix j a
        assume j: "i + 1 \<le> j" "j < max_size table" "chain table j = Some a"
          "r = Some a" "\<forall>k. i + 1 \<le> k \<and> k < j \<longrightarrow> chain table k = None"
          "table' = table\<lparr>iterNode := Some a, iterChain := of_nat (j + 1)\<rparr>"
        have "chain table k = None" if "i \<le> k" "k < j" for k
        proof (cases "k = i")
          case True
          with None show ?thesis by simp
        next
          case False
          with that have "i + 1 \<le> k" by simp
          with j(5) that show ?thesis by blast
        qed
        then have "\<forall>k. i \<le> k \<and> k < j \<longrightarrow> chain table k = None" by blast
        moreover have "i \<le> j" using j(1) by simp
        ultimately show ?thesis using j(2,3,4,6) by blast
      qed
    qed
  qed
qed

lemma HT_Next_Inr:
  assumes "HT_Next table h = Inr (table', r)"
  shows "max_size table' = max_size table \<and> chain table' = chain table
     \<and> n_elements table' = n_elements table \<and> iterOK table' = iterOK table"
proof (cases "case iterNode table of None \<Rightarrow> None | Some a \<Rightarrow> next (h a)")
  case (Some b)
  with assms show ?thesis by (auto simp: HT_Next_def split: if_splits)
next
  case None
  show ?thesis
  proof (cases "sint (iterChain table) < 0")
    case True
    with assms None show ?thesis by (auto simp: HT_Next_def split: if_splits)
  next
    case False
    with assms None have "Next_loop table (unat (iterChain table)) = (table', r)"
      by (auto simp: HT_Next_def split: if_splits)
    from Next_loop_result [OF this] show ?thesis by auto
  qed
qed

lemma HT_remove_at_Iter_Inr:
  "HT_remove_at_Iter table = Inr table' \<Longrightarrow>
     table' = table\<lparr>iterNode := None, n_elements := n_elements table - 1\<rparr>"
  by (auto simp: HT_remove_at_Iter_def split: if_splits)

lemma reachable_shape:
  "reachable table h \<Longrightarrow>
     max_size table = 769 \<and> (\<forall>i a. chain table i = Some a \<longrightarrow> next (h a) = None)"
proof (induction rule: reachable.induct)
  case (construct nm h)
  show ?case by simp
next
  case (add_node table h node table' h')
  from HT_add_node_Inr [OF add_node.hyps(2)] obtain i where
    t: "table' = table\<lparr>chain := (chain table)(i := Some node),
                        n_elements := n_elements table + 1, iterOK := False\<rparr>"
    and h: "h' = h(node := (h node)\<lparr>next := None\<rparr>)" by blast
  with add_node.IH show ?case by auto
next
  case (remove table h k table' r)
  from HT_remove_Inr [OF remove.hyps(2)] remove.IH show ?case by auto
next
  case (gen_remove table h hnode cmp table' r)
  from HT_gen_remove_Some [OF gen_remove.hyps(2)] gen_remove.IH show ?case by auto
next
  case (reset table h)
  then show ?case by (simp add: HT_ResetIter_def)
next
  case (advance table h table' r)
  from HT_Next_Inr [OF advance.hyps(2)] advance.IH show ?case by simp
next
  case (remove_at_iter table h table')
  from HT_remove_at_Iter_Inr [OF remove_at_iter.hyps(2)] remove_at_iter.IH show ?case by simp
qed


lemma gen_remove_loop_match:
  "cur = Some c \<Longrightarrow> key (h hnode) = key (h c) \<Longrightarrow> cmp hnode c = 0 \<Longrightarrow>
     gen_remove_loop table h hnode cmp idx cur
       = Some (table\<lparr>n_elements := n_elements table - 1\<rparr>, Some c)"
  by (subst gen_remove_loop.simps) simp


lemma last_primes: "last primes = 402653189"
  by (simp add: primes_def)

lemma resize_capacity:
  assumes "resize table h = Inr table'" "max_size table \<in> set primes"
  shows "max_size table' \<in> set primes \<and> max_size table \<le> max_size table'"
  using resize_Inr [OF assms(1)] assms(2) by auto

lemma reachable_cursor_table: "reachable cursor_table (nodes_with_keys (\<lambda>_. 5))"
proof -
  let ?H = "nodes_with_keys (\<lambda>_. 5)"
  let ?T1 = "(HT_construct ''T'')
               \<lparr>chain := (\<lambda>_. None)(5 := Some 100), n_elements := 1, iterOK := False\<rparr>"
  have a: "HT_add_node (HT_construct ''T'') ?H 100 = Inr (?T1, ?H)"
    by (simp add: insert_eval)
  have b: "HT_Next (HT_ResetIter ?T1) ?H = Inr (cursor_table, Some 100)"
    by (simp add: HT_Next_def HT_ResetIter_def Next_loop.simps HT_construct_def primes_first
          cursor_table_def)
  from reachable.advance [OF reachable.reset [OF reachable.add_node [OF reachable.construct a]] b]
  show ?thesis .
qed

lemma resize_construct:
  "resize (HT_construct nm) h = Inr ((HT_construct nm)\<lparr>max_size := 1543\<rparr>)"
  by (simp add: resize_def Let_def primes_first primes_last resize_loop_fresh)
     (simp add: primes_def HT_construct_def)

lemma chain_nodes_None [simp]: "chain_nodes h n None = []"
  by (cases n) simp_all

lemma chain_nodes_single:
  "next (h a) = None \<Longrightarrow> chain_nodes h (Suc n) (Some a) = [a]"
  by simp

subsection \<open>Facts about the re-hash loop\<close>

lemma resize_probe_Inr:
  "resize_probe chns nc idx = Inr j \<Longrightarrow> idx \<le> j \<and> j < nc \<and> chns j \<noteq> None"
proof (induction chns nc idx rule: resize_probe.induct)
  case (1 chns nc idx)
  show ?case
  proof (cases "chns idx = None")
    case True
    with "1.prems" have "\<not> nc \<le> idx \<and> resize_probe chns nc (idx + 1) = Inr j"
      by (subst (asm) resize_probe.simps) (simp split: if_splits)
    then have lt: "\<not> nc \<le> idx" and r: "resize_probe chns nc (idx + 1) = Inr j" by simp_all
    from "1.IH" [OF lt True r] show ?thesis by simp
  next
    case False
    with "1.prems" show ?thesis
      by (subst (asm) resize_probe.simps) (auto split: if_splits)
  qed
qed

lemma resize_loop_empty_tail:
  "(\<forall>k. i \<le> k \<and> k < oc \<longrightarrow> old k = None) \<Longrightarrow> resize_loop old h oc nc chns i = Inr chns"
proof (induction "oc - i" arbitrary: i)
  case 0
  then show ?case by (subst resize_loop.simps) simp
next
  case (Suc m)
  then have "resize_loop old h oc nc chns (i + 1) = Inr chns" by (intro Suc.hyps(1)) auto
  moreover have "i < oc" "old i = None" using Suc.prems Suc.hyps(2) by auto
  ultimately show ?case by (subst resize_loop.simps) simp
qed

lemma resize_loop_step:
  assumes "resize_loop old h oc nc chns i = Inr r" "i < oc"
  shows "old i = None \<and> resize_loop old h oc nc chns (i + 1) = Inr r
       \<or> (\<exists>node idx. old i = Some node
             \<and> resize_probe chns nc (unat (key (h node)) mod nc) = Inr idx
             \<and> resize_loop old h oc nc (chns(idx := Some node)) (i + 1) = Inr r)"
  using assms by (subst (asm) resize_loop.simps) (auto split: option.splits sum.splits)

lemma resize_loop_changed:
  "resize_loop old h oc nc chns i = Inr r \<Longrightarrow> r j \<noteq> chns j \<Longrightarrow>
     j < nc \<and> (\<exists>k a. i \<le> k \<and> k < oc \<and> old k = Some a \<and> r j = Some a)"
proof (induction "oc - i" arbitrary: i chns)
  case 0
  then have "r = chns" by (subst (asm) resize_loop.simps) simp
  with 0 show ?case by simp
next
  case (Suc m)
  then have lt: "i < oc" and m: "m = oc - (i + 1)" by auto
  from resize_loop_step [OF Suc.prems(1) lt] show ?case
  proof (elim disjE conjE exE)
    assume "old i = None" "resize_loop old h oc nc chns (i + 1) = Inr r"
    from Suc.hyps(1) [OF m this(2) Suc.prems(2)] show ?thesis
      by (meson add_leD1)
  next
    fix node idx
    assume o: "old i = Some node"
      and p: "resize_probe chns nc (unat (key (h node)) mod nc) = Inr idx"
      and l: "resize_loop old h oc nc (chns(idx := Some node)) (i + 1) = Inr r"
    show ?thesis
    proof (cases "r j = (chns(idx := Some node)) j")
      case False
      from Suc.hyps(1) [OF m l False] show ?thesis by (meson add_leD1)
    next
      case True
      with Suc.prems(2) have "j = idx" "r j = Some node" by (auto split: if_splits)
      with resize_probe_Inr [OF p] o lt show ?thesis by auto
    qed
  qed
qed

lemma resize_loop_last_head:
  "resize_loop old h oc nc chns i = Inr r \<Longrightarrow> i \<le> k \<Longrightarrow> k < oc \<Longrightarrow> old k = Some a \<Longrightarrow>
     (\<forall>k'. k < k' \<and> k' < oc \<longrightarrow> old k' = None) \<Longrightarrow> \<exists>j<nc. r j = Some a"
proof (induction "k - i" arbitrary: i chns)
  case 0
  then have ik: "i = k" by simp
  from resize_loop_step [OF "0.prems"(1)] "0.prems"(3,4) ik obtain idx where
    p: "resize_probe chns nc (unat (key (h a)) mod nc) = Inr idx"
    and l: "resize_loop old h oc nc (chns(idx := Some a)) (k + 1) = Inr r" by auto
  have "resize_loop old h oc nc (chns(idx := Some a)) (k + 1) = Inr (chns(idx := Some a))"
    using "0.prems"(5) by (intro resize_loop_empty_tail) auto
  with l have "r = chns(idx := Some a)" by simp
  with resize_probe_Inr [OF p] show ?case by auto
next
  case (Suc m)
  then have lt: "i < oc" "i + 1 \<le> k" and m: "m = k - (i + 1)" by auto
  from resize_loop_step [OF Suc.prems(1) lt(1)] obtain c where
    "resize_loop old h oc nc c (i + 1) = Inr r" by auto
  from Suc.hyps(1) [OF m this lt(2) Suc.prems(3,4,5)] show ?case .
qed

section \<open>The claims\<close>

text \<open>In the scenarios below the caller's nodes live at the addresses 100 and 200 and the
  table is the one \<^verbatim>\<open>HT_construct\<close> returns, with 769 slots.\<close>

text \<open>C1. Insertion into bucket \<open>key mod capacity\<close> is specified to prepend: the node's
  link becomes the old head and the bucket head becomes the node. On the code, inserting
  node 100 and then node 200, both with key 5, leaves node 100 as the head of slot 5, puts
  node 200 into slot 6 and sets its link to \<^verbatim>\<open>NULL\<close>; the count is 2.\<close>

theorem add_node_probes_instead_of_prepending:
  "and_then (add_nodes (HT_construct ''T'') (nodes_with_keys (\<lambda>_. 5)) [100, 200])
     (\<lambda>(t, h). Inr (chain t 5, chain t 6, next (h 200), HT_count_nodes t))
   = Inr (Some 100, Some 200, None, 2)"
  by (simp add: insert_eval HT_count_nodes_def)

text \<open>C2. Lookup by key is specified to return, among duplicates, the most recently
  inserted node. On the code, after inserting node 100 and then node 200, both with
  key 5, the lookup of key 5 returns node 100, the older one.\<close>

theorem lookup_returns_oldest_duplicate:
  "and_then (add_nodes (HT_construct ''T'') (nodes_with_keys (\<lambda>_. 5)) [100, 200])
     (\<lambda>(t, h). HT_lookup t h 5)
   = Inr (Some 100)"
  by (simp add: insert_eval HT_lookup_def lookup_loop.simps)

text \<open>C3. Removal by key is specified to unlink the node, so that with one node of key
  \<open>k\<close> present a second removal of \<open>k\<close> reports not-found. On the code, with node 100
  (key 12) and node 200 (key 13) inserted, the first removal of key 12 returns node 100
  and leaves it in slot 12 with the count at 1; the second removal of key 12 returns
  node 100 again and brings the count to 0.\<close>

theorem remove_leaves_node_in_slot:
  "and_then (add_nodes (HT_construct ''T'')
               (nodes_with_keys (\<lambda>a. if a = 100 then 12 else 13)) [100, 200])
     (\<lambda>(t, h). and_then (HT_remove t h 12)
     (\<lambda>(t1, r1). and_then (HT_remove t1 h 12)
     (\<lambda>(t2, r2). Inr (r1, chain t1 12, HT_count_nodes t1, r2, HT_count_nodes t2))))
   = Inr (Some 100, Some 100, 1, Some 100, 0)"
  by (simp add: insert_eval HT_remove_def remove_loop.simps HT_count_nodes_def)

text \<open>C4. Growth is specified to re-hash every node into the larger array and to keep
  every node discoverable. On the code, node 100 with key 768 takes the last slot; the
  insertion of node 200 with the same key probes past the end of the array and calls
  \<^verbatim>\<open>resize\<close>, whose re-hash loop advances over empty slots of the new, all-empty array
  and reads past its end.\<close>

theorem growth_reads_past_new_array:
  "add_nodes (HT_construct ''T'') (nodes_with_keys (\<lambda>_. 768)) [100, 200] = Inl OutOfBounds"
proof -
  let ?h = "nodes_with_keys (\<lambda>_. 768)"
  let ?t = "(HT_construct ''T'')
              \<lparr>chain := (\<lambda>_. None)(768 := Some 100), n_elements := 1, iterOK := False\<rparr>"
  have first: "HT_add_node (HT_construct ''T'') ?h 100 = Inr (?t, ?h)"
    by (simp add: insert_eval)
  have "resize ?t ?h = Inl OutOfBounds"
    by (rule resize_nonempty [where k = 768]) simp_all
  then have "HT_add_node ?t ?h 200 = Inl OutOfBounds"
    by (simp add: insert_eval)
  with first show ?thesis by simp
qed

text \<open>C5. The count is specified to equal the length of the exported array and the number
  of nodes in the table after any inserts and removes. On the code, after inserting nodes
  100 and 200 with key 5 (slots 5 and 6) the export skips slot 6 and its final assertion
  \<^verbatim>\<open>j == *n_elems\<close> fails; and after inserting node 100 (key 12) and node 200 (key 13)
  and removing key 12 the count is 1 while slots 12 and 13 both still hold their node.\<close>

theorem count_disagrees_with_stored_nodes:
  "and_then (add_nodes (HT_construct ''T'') (nodes_with_keys (\<lambda>_. 5)) [100, 200])
     (\<lambda>(t, h). HT_to_array t h)
   = Inl AssertFail
   \<and> and_then (add_nodes (HT_construct ''T'')
                 (nodes_with_keys (\<lambda>a. if a = 100 then 12 else 13)) [100, 200])
       (\<lambda>(t, h). and_then (HT_remove t h 12)
       (\<lambda>(t1, r). Inr (HT_count_nodes t1, chain t1 12, chain t1 13)))
     = Inr (1, Some 100, Some 200)"
proof
  let ?h = "nodes_with_keys (\<lambda>_. 5)"
  let ?t = "(HT_construct ''T'')
              \<lparr>chain := (\<lambda>_. None)(5 := Some 100, 6 := Some 200),
               n_elements := 2, iterOK := False\<rparr>"
  have ins: "add_nodes (HT_construct ''T'') ?h [100, 200] = Inr (?t, ?h)"
    by (simp add: insert_eval)
  have "to_array_for ?t ?h 2 0 [] = to_array_for ?t ?h 2 5 []"
    by (rule to_array_for_skip) simp_all
  also have "\<dots> = to_array_for ?t ?h 2 7 [100]"
    by (simp add: to_array_for.simps [of _ _ _ 5] to_array_while.simps)
  also have "\<dots> = Inr [100]"
    by (rule to_array_for_none) simp
  finally have "HT_to_array ?t ?h = Inl AssertFail"
    by (simp add: HT_to_array_def)
  with ins show "and_then (add_nodes (HT_construct ''T'') ?h [100, 200])
                   (\<lambda>(t, h). HT_to_array t h) = Inl AssertFail"
    by simp
next
  show "and_then (add_nodes (HT_construct ''T'')
                   (nodes_with_keys (\<lambda>a. if a = 100 then 12 else 13)) [100, 200])
          (\<lambda>(t, h). and_then (HT_remove t h 12)
          (\<lambda>(t1, r). Inr (HT_count_nodes t1, chain t1 12, chain t1 13)))
        = Inr (1, Some 100, Some 200)"
    by (simp add: insert_eval HT_remove_def remove_loop.simps HT_count_nodes_def)
qed

text \<open>C6. The capacity is always an entry of the growth sequence and never decreases:
  the constructed table has the first entry; every reachable table has an entry of
  \<open>primes\<close>; from a table whose capacity is in \<open>primes\<close>, every operation that returns
  leaves the capacity in \<open>primes\<close> and not smaller (the removals and the iterator
  leave it unchanged); and at the last entry \<^verbatim>\<open>resize\<close> returns the table as it
  is.\<close>

theorem capacity_stays_in_growth_sequence:
  "max_size (HT_construct nm) = primes ! 0
   \<and> (reachable table h \<longrightarrow> max_size table \<in> set primes)
   \<and> (max_size table \<in> set primes \<longrightarrow>
        (HT_add_node table h node = Inr (t1, h1)
           \<longrightarrow> max_size t1 \<in> set primes \<and> max_size table \<le> max_size t1)
      \<and> (HT_remove table h k = Inr (t2, r2) \<longrightarrow> max_size t2 = max_size table)
      \<and> (HT_gen_remove table h hnode cmp = Some (Inr (t3, r3)) \<longrightarrow> max_size t3 = max_size table)
      \<and> max_size (HT_ResetIter table) = max_size table
      \<and> (HT_Next table h = Inr (t4, r4) \<longrightarrow> max_size t4 = max_size table)
      \<and> (HT_remove_at_Iter table = Inr t5 \<longrightarrow> max_size t5 = max_size table))
   \<and> (max_size u \<in> set primes \<longrightarrow> resize u hu = Inr u'
        \<longrightarrow> max_size u' \<in> set primes \<and> max_size u \<le> max_size u')
   \<and> (max_size v = last primes \<longrightarrow> resize v hv = Inr v)"
proof (intro conjI impI)
  show "max_size (HT_construct nm) = primes ! 0" by (simp add: primes_first)
next
  assume "reachable table h"
  from reachable_shape [OF this] show "max_size table \<in> set primes" by (simp add: primes_def)
next
  assume "HT_add_node table h node = Inr (t1, h1)"
  from HT_add_node_Inr [OF this] have eq: "max_size t1 = max_size table" by auto
  then show "max_size table \<le> max_size t1" by simp
  assume "max_size table \<in> set primes"
  with eq show "max_size t1 \<in> set primes" by simp
next
  assume "HT_remove table h k = Inr (t2, r2)"
  from HT_remove_Inr [OF this] show "max_size t2 = max_size table" by auto
next
  assume "HT_gen_remove table h hnode cmp = Some (Inr (t3, r3))"
  from HT_gen_remove_Some [OF this] show "max_size t3 = max_size table" by auto
next
  show "max_size (HT_ResetIter table) = max_size table" by (simp add: HT_ResetIter_def)
next
  assume "HT_Next table h = Inr (t4, r4)"
  from HT_Next_Inr [OF this] show "max_size t4 = max_size table" by simp
next
  assume "HT_remove_at_Iter table = Inr t5"
  from HT_remove_at_Iter_Inr [OF this] show "max_size t5 = max_size table" by simp
next
  assume a: "max_size u \<in> set primes" "resize u hu = Inr u'"
  from resize_capacity [OF a(2) a(1)]
  show "max_size u' \<in> set primes" "max_size u \<le> max_size u'" by simp_all
next
  assume "max_size v = last primes"
  then show "resize v hv = Inr v" by (simp add: last_primes resize_final)
qed

theorem capacity_stays_in_growth_sequence_witness:
  "reachable cursor_table (nodes_with_keys (\<lambda>_. 5))
   \<and> max_size cursor_table \<in> set primes
   \<and> HT_add_node cursor_table (nodes_with_keys (\<lambda>_. 5)) 200
      = Inr (cursor_table\<lparr>chain := (chain cursor_table)(6 := Some 200),
                           n_elements := 2, iterOK := False\<rparr>, nodes_with_keys (\<lambda>_. 5))
   \<and> HT_remove cursor_table (nodes_with_keys (\<lambda>_. 5)) 5
      = Inr (cursor_table\<lparr>iterOK := False, n_elements := 0\<rparr>, Some 100)
   \<and> HT_gen_remove cursor_table (nodes_with_keys (\<lambda>_. 5)) 100 (\<lambda>_ _. 0)
      = Some (Inr (cursor_table\<lparr>iterOK := False, n_elements := 0\<rparr>, Some 100))
   \<and> HT_Next cursor_table (nodes_with_keys (\<lambda>_. 5)) = Inr (cursor_table, None)
   \<and> HT_remove_at_Iter cursor_table = Inr (cursor_table\<lparr>iterNode := None, n_elements := 0\<rparr>)
   \<and> max_size (cursor_table\<lparr>chain := (chain cursor_table)(6 := Some 200),
                              n_elements := 2, iterOK := False\<rparr>) = 769
   \<and> max_size (HT_construct ''T'') \<in> set primes
   \<and> resize (HT_construct ''T'') (nodes_with_keys (\<lambda>_. 5))
      = Inr ((HT_construct ''T'')\<lparr>max_size := 1543\<rparr>)
   \<and> max_size ((HT_construct ''T'')\<lparr>max_size := 1543\<rparr>) \<in> set primes
   \<and> max_size (HT_construct ''T'') \<le> max_size ((HT_construct ''T'')\<lparr>max_size := 1543\<rparr>)
   \<and> max_size ((HT_construct ''T'')\<lparr>max_size := 402653189\<rparr>) = last primes
   \<and> resize ((HT_construct ''T'')\<lparr>max_size := 402653189\<rparr>) (nodes_with_keys (\<lambda>_. 5))
      = Inr ((HT_construct ''T'')\<lparr>max_size := 402653189\<rparr>)"
  (is "reachable ?T ?H \<and> _ \<and> HT_add_node ?T ?H 200 = Inr (?T1, ?H)
       \<and> HT_remove ?T ?H 5 = Inr (?T2, ?r) \<and> HT_gen_remove ?T ?H 100 ?cmp = _
       \<and> HT_Next ?T ?H = _ \<and> HT_remove_at_Iter ?T = Inr ?T5 \<and> _ \<and> _
       \<and> resize ?U ?H = Inr ?U' \<and> _ \<and> _ \<and> _ \<and> resize ?V ?H = _")
proof -
  note inst = capacity_stays_in_growth_sequence
    [of "''T''" ?T ?H 200 ?T1 ?H 5 ?T2 ?r 100 ?cmp ?T2 ?r ?T None ?T5 ?U ?H ?U' ?V ?H]
  have r: "reachable ?T ?H" by (rule reachable_cursor_table)
  with inst have p: "max_size ?T \<in> set primes" by blast
  have a: "HT_add_node ?T ?H 200 = Inr (?T1, ?H)"
    by (simp add: insert_eval cursor_table_def)
  have b: "HT_remove ?T ?H 5 = Inr (?T2, ?r)"
    by (simp add: HT_remove_def remove_loop.simps CHAIN_NO_def cursor_table_def)
  have c: "HT_gen_remove ?T ?H 100 ?cmp = Some (Inr (?T2, ?r))"
    by (simp add: HT_gen_remove_def CHAIN_NO_def gen_remove_loop_match cursor_table_def)
  have "Next_loop ?T 6 = (?T, None)"
    by (rule Next_loop_none) (simp add: cursor_table_def)
  then have d: "HT_Next ?T ?H = Inr (?T, None)"
    by (simp add: HT_Next_def cursor_table_def)
  have e: "HT_remove_at_Iter ?T = Inr ?T5"
    by (simp add: HT_remove_at_Iter_def cursor_table_def)
  from inst p a have f: "max_size ?T1 \<in> set primes \<and> max_size ?T \<le> max_size ?T1" by blast
  have g: "max_size ?T1 = 769" by (simp add: cursor_table_def)
  have u: "max_size ?U \<in> set primes" by (simp add: primes_def)
  have ru: "resize ?U ?H = Inr ?U'" by (rule resize_construct)
  from inst u ru have h: "max_size ?U' \<in> set primes \<and> max_size ?U \<le> max_size ?U'" by blast
  have v: "max_size ?V = last primes" by (simp add: last_primes)
  with inst have rv: "resize ?V ?H = Inr ?V" by blast
  from r p a b c d e g u ru h v rv show ?thesis by blast
qed

text \<open>C7. A traversal from reset to the end-marker is specified to visit exactly
  \<open>count()\<close> nodes. On the code, after inserting node 100 (key 12) and node 200 (key 13)
  and removing key 12, the count is 1 and the traversal yields node 100, node 200 and
  then the end-marker: two nodes, the removed one among them.\<close>

theorem traversal_visits_removed_node:
  "and_then (add_nodes (HT_construct ''T'')
               (nodes_with_keys (\<lambda>a. if a = 100 then 12 else 13)) [100, 200])
     (\<lambda>(t, h). and_then (HT_remove t h 12)
     (\<lambda>(t1, r). and_then (HT_Next (HT_ResetIter t1) h)
     (\<lambda>(t2, n1). and_then (HT_Next t2 h)
     (\<lambda>(t3, n2). and_then (HT_Next t3 h)
     (\<lambda>(t4, n3). Inr (HT_count_nodes t1, n1, n2, n3))))))
   = Inr (1, Some 100, Some 200, None)"
proof -
  let ?h = "nodes_with_keys (\<lambda>a. if a = 100 then 12 else 13)"
  let ?c = "(\<lambda>_. None)(12 := Some 100, 13 := Some (200::nat))"
  let ?t = "(HT_construct ''T'')\<lparr>chain := ?c, n_elements := 2, iterOK := False\<rparr>"
  let ?t1 = "(HT_construct ''T'')\<lparr>chain := ?c, n_elements := 1, iterOK := False\<rparr>"
  let ?t2 = "(HT_construct ''T'')
               \<lparr>chain := ?c, n_elements := 1, iterOK := True,
                iterNode := Some 100, iterChain := 13\<rparr>"
  let ?t3 = "(HT_construct ''T'')
               \<lparr>chain := ?c, n_elements := 1, iterOK := True,
                iterNode := Some 200, iterChain := 14\<rparr>"
  have a: "add_nodes (HT_construct ''T'') ?h [100, 200] = Inr (?t, ?h)"
    by (simp add: insert_eval)
  have b: "HT_remove ?t ?h 12 = Inr (?t1, Some 100)"
    by (simp add: HT_remove_def remove_loop.simps CHAIN_NO_def)
  have c: "HT_Next (HT_ResetIter ?t1) ?h = Inr (?t2, Some 100)"
    by (simp add: HT_Next_def HT_ResetIter_def Next_loop.simps HT_construct_def primes_first)
  have d: "HT_Next ?t2 ?h = Inr (?t3, Some 200)"
    by (simp add: HT_Next_def Next_loop.simps HT_construct_def primes_first)
  have "Next_loop ?t3 14 = (?t3, None)"
    by (rule Next_loop_none) simp
  then have e: "HT_Next ?t3 ?h = Inr (?t3, None)"
    by (simp add: HT_Next_def HT_construct_def primes_first)
  show ?thesis
    unfolding a by (simp add: b c d e HT_count_nodes_def)
qed

text \<open>C8. Removing the node at the cursor is specified to unlink exactly that node. On the
  code, with node 100 (key 5) and node 200 (key 9) inserted, after reset and one advance
  (yielding node 100) \<^verbatim>\<open>HT_remove_at_Iter\<close> brings the count to 1 and leaves node 100
  in slot 5: the lookup of key 5 still returns it, and a new traversal yields it
  again.\<close>

theorem remove_at_Iter_leaves_node_in_slot:
  "and_then (add_nodes (HT_construct ''T'')
               (nodes_with_keys (\<lambda>a. if a = 100 then 5 else 9)) [100, 200])
     (\<lambda>(t, h). and_then (HT_Next (HT_ResetIter t) h)
     (\<lambda>(t1, n1). and_then (HT_remove_at_Iter t1)
     (\<lambda>t2. and_then (HT_lookup t2 h 5)
     (\<lambda>l. and_then (HT_Next (HT_ResetIter t2) h)
     (\<lambda>(t3, n2). Inr (n1, HT_count_nodes t2, chain t2 5, l, n2))))))
   = Inr (Some 100, 1, Some 100, Some 100, Some 100)"
  by (simp add: insert_eval HT_Next_def HT_ResetIter_def Next_loop.simps HT_remove_at_Iter_def
        HT_lookup_def lookup_loop.simps HT_count_nodes_def)



text \<open>C10. Every node stored in a reachable table has the link \<^verbatim>\<open>NULL\<close>, so the nodes
  found from an occupied slot are that one node; an insertion sets the inserted node's
  link to \<^verbatim>\<open>NULL\<close> whatever it was, keeps its key, writes no other node and changes
  exactly one slot, which then holds the node; and the re-hash loop of \<^verbatim>\<open>resize\<close>, run
  from any index on any new array, writes no node header (its result is the new array
  alone) and changes a slot of the new array only by storing there the head of an old slot
  it has visited, and when it returns the head of the last occupied old slot is in the new
  array.\<close>

theorem stored_nodes_have_no_link:
  "(reachable table h \<longrightarrow>
      (\<forall>i a. chain table i = Some a
         \<longrightarrow> next (h a) = None \<and> chain_nodes h (Suc n) (chain table i) = [a]))
   \<and> (HT_add_node table h node = Inr (table', h')
        \<longrightarrow> next (h' node) = None \<and> key (h' node) = key (h node)
            \<and> (\<forall>b. b \<noteq> node \<longrightarrow> h' b = h b)
            \<and> (\<exists>i<max_size table'. chain table' i = Some node
                  \<and> (\<forall>j. j \<noteq> i \<longrightarrow> chain table' j = chain table j)))
   \<and> (resize_loop old hl oc nc chns i0 = Inr r \<longrightarrow>
        (r j \<noteq> chns j
           \<longrightarrow> j < nc \<and> (\<exists>k a. i0 \<le> k \<and> k < oc \<and> old k = Some a \<and> r j = Some a))
      \<and> (i0 \<le> k0 \<and> k0 < oc \<and> old k0 = Some a0
             \<and> (\<forall>k'. k0 < k' \<and> k' < oc \<longrightarrow> old k' = None)
           \<longrightarrow> (\<exists>j<nc. r j = Some a0)))"
proof (intro conjI impI allI)
  fix i a
  assume "reachable table h" "chain table i = Some a"
  with reachable_shape show l: "next (h a) = None" by blast
  with \<open>chain table i = Some a\<close> show "chain_nodes h (Suc n) (chain table i) = [a]"
    by (simp add: chain_nodes_single)
next
  assume a: "HT_add_node table h node = Inr (table', h')"
  from HT_add_node_Inr [OF a] obtain i where
    i: "i < max_size table"
    and t: "table' = table\<lparr>chain := (chain table)(i := Some node),
                        n_elements := n_elements table + 1, iterOK := False\<rparr>"
    and h: "h' = h(node := (h node)\<lparr>next := None\<rparr>)" by blast
  from h show "next (h' node) = None" "key (h' node) = key (h node)" by simp_all
  from i t show "\<exists>i<max_size table'. chain table' i = Some node
                  \<and> (\<forall>j. j \<noteq> i \<longrightarrow> chain table' j = chain table j)"
    by (intro exI [of _ i]) simp
  fix b assume "b \<noteq> node"
  with h show "h' b = h b" by simp
next
  assume l: "resize_loop old hl oc nc chns i0 = Inr r"
  {
    assume "r j \<noteq> chns j"
    from resize_loop_changed [OF l this]
    show "j < nc" "\<exists>k a. i0 \<le> k \<and> k < oc \<and> old k = Some a \<and> r j = Some a" by simp_all
  }
  assume "i0 \<le> k0 \<and> k0 < oc \<and> old k0 = Some a0
            \<and> (\<forall>k'. k0 < k' \<and> k' < oc \<longrightarrow> old k' = None)"
  then show "\<exists>j<nc. r j = Some a0"
    using resize_loop_last_head [OF l, of k0 a0] by blast
qed

theorem stored_nodes_have_no_link_witness:
  "next (heap_stale_link 100) = Some 200
   \<and> HT_add_node (HT_construct ''T'') heap_stale_link 100
      = Inr ((HT_construct ''T'')\<lparr>chain := (\<lambda>_. None)(5 := Some 100),
                                   n_elements := 1, iterOK := False\<rparr>,
             nodes_with_keys (\<lambda>_. 5))
   \<and> next (nodes_with_keys (\<lambda>_. 5) 100) = None
   \<and> reachable ((HT_construct ''T'')\<lparr>chain := (\<lambda>_. None)(5 := Some 100),
                                     n_elements := 1, iterOK := False\<rparr>)
        (nodes_with_keys (\<lambda>_. 5))
   \<and> chain_nodes (nodes_with_keys (\<lambda>_. 5)) (Suc 7)
        (chain ((HT_construct ''T'')\<lparr>chain := (\<lambda>_. None)(5 := Some 100),
                                      n_elements := 1, iterOK := False\<rparr>) 5) = [100]
   \<and> resize_loop rehash_old (nodes_with_keys (\<lambda>_. 5)) 769 1543 rehash_new 0
      = Inr (rehash_new(7 := Some 100))
   \<and> (rehash_new(7 := Some 100)) 7 \<noteq> rehash_new 7
   \<and> (7::nat) < 1543
   \<and> (\<exists>k a. 0 \<le> k \<and> k < 769 \<and> rehash_old k = Some a
          \<and> (rehash_new(7 := Some 100)) 7 = Some a)
   \<and> rehash_old 0 = Some 100
   \<and> (\<exists>j<1543. (rehash_new(7 := Some 100)) j = Some 100)"
proof -
  let ?Tc = "HT_construct ''T''"
  let ?Hs = heap_stale_link
  let ?T = "(HT_construct ''T'')\<lparr>chain := (\<lambda>_. None)(5 := Some 100),
                                  n_elements := 1, iterOK := False\<rparr>"
  let ?H = "nodes_with_keys (\<lambda>_. 5)"
  let ?old = rehash_old
  let ?new = rehash_new
  let ?res = "rehash_new(7 := Some 100)"
  have s: "next (?Hs 100) = Some 200" by (simp add: heap_stale_link_def)
  have a: "HT_add_node ?Tc ?Hs 100 = Inr (?T, ?H)"
    by (simp add: insert_eval heap_stale_link_def) (simp add: nodes_with_keys_def fun_eq_iff)
  from reachable.add_node [OF reachable.construct a] have r: "reachable ?T ?H" .
  have c: "chain ?T 5 = Some 100" by simp
  have "resize_probe ?new 1543 5 = Inr 7"
    by (simp add: resize_probe.simps rehash_new_def)
  moreover have "resize_loop ?old ?H 769 1543 ?res 1 = Inr ?res"
    by (rule resize_loop_empty_tail) (simp add: rehash_old_def)
  moreover have "?old 0 = Some 100" by (simp add: rehash_old_def)
  ultimately have l: "resize_loop ?old ?H 769 1543 ?new 0 = Inr ?res"
    by (subst resize_loop.simps) simp
  have ch: "?res 7 \<noteq> ?new 7" by (simp add: rehash_new_def)
  have o: "?old 0 = Some 100" by (simp add: rehash_old_def)
  have hd: "(0::nat) \<le> 0 \<and> (0::nat) < 769 \<and> ?old 0 = Some 100
            \<and> (\<forall>k'. 0 < k' \<and> k' < 769 \<longrightarrow> ?old k' = None)"
    by (simp add: rehash_old_def)
  note inst1 = stored_nodes_have_no_link
    [where table = ?Tc and h = ?Hs and node = 100 and table' = ?T and h' = ?H]
  note inst2 = stored_nodes_have_no_link
    [where table = ?T and h = ?H and n = 7 and old = ?old and hl = ?H and oc = 769
       and nc = 1543 and chns = ?new and ?i0.0 = 0 and r = ?res and j = 7
       and ?k0.0 = 0 and ?a0.0 = 100]
  from inst1 a have 1: "next (?H 100) = None" by blast
  from inst2 r c have 2: "chain_nodes ?H (Suc 7) (chain ?T 5) = [100]" by blast
  note loop = inst2 [THEN conjunct2, THEN conjunct2, THEN mp, OF l]
  from loop [THEN conjunct1, THEN mp, OF ch] have 3: "(7::nat) < 1543"
    and 4: "\<exists>k a. 0 \<le> k \<and> k < 769 \<and> ?old k = Some a \<and> ?res 7 = Some a"
    by (rule conjunct1, rule conjunct2)
  from loop [THEN conjunct2, THEN mp, OF hd] have 5: "\<exists>j<1543. ?res j = Some 100" .
  show ?thesis
    apply (intro conjI)
              apply (rule s)
             apply (rule a)
            apply (rule 1)
           apply (rule r)
          apply (rule 2)
         apply (rule l)
        apply (rule ch)
       apply (rule 3)
      apply (rule 4)
     apply (rule o)
    apply (rule 5)
    done
qed

end
